theory Spec2Isabelle
  imports Main "HOL-Library.Sublist" "HOL-Library.Multiset"
begin

section \<open>JavaScript strings\<close>

text \<open>
  A JavaScript string is a sequence of UTF-16 code units; \<open>length\<close>, \<open>indexOf\<close>,
  \<open>substring\<close> and regular expressions without the \<open>u\<close> flag all count code units.
  A code unit is modelled by its number.  \<open>js\<close> turns an Isabelle literal into the
  JavaScript string with the same (ASCII) characters.
\<close>

type_synonym jschar = nat
type_synonym jsstring = "jschar list"

definition js :: "string \<Rightarrow> jsstring" where
  "js = map of_char"

text \<open>\<open>String.prototype.startsWith(p)\<close>.\<close>

definition startsWith :: "jsstring \<Rightarrow> jsstring \<Rightarrow> bool" where
  "startsWith s p = prefix p s"

text \<open>
  \<open>String.prototype.indexOf(p, k)\<close>: the least index \<open>i \<ge> k\<close> at which \<open>p\<close> occurs in
  \<open>s\<close>; the start position is clamped to the length of \<open>s\<close>.  JavaScript returns \<open>-1\<close> when
  there is none, the model \<open>None\<close>.
\<close>

fun find_at :: "jsstring \<Rightarrow> jsstring \<Rightarrow> nat \<Rightarrow> nat option" where
  "find_at p [] i = (if p = [] then Some i else None)"
| "find_at p (c # cs) i = (if prefix p (c # cs) then Some i else find_at p cs (Suc i))"

definition indexOf :: "jsstring \<Rightarrow> jsstring \<Rightarrow> nat \<Rightarrow> nat option" where
  "indexOf s p k = (let k' = min k (length s) in find_at p (drop k' s) k')"

text \<open>\<open>String.prototype.includes(p)\<close> (\<open>includes\<close> is a keyword of Isabelle).\<close>

definition str_includes :: "jsstring \<Rightarrow> jsstring \<Rightarrow> bool" where
  "str_includes s p = (indexOf s p 0 \<noteq> None)"

text \<open>
  \<open>String.prototype.substring(a, b)\<close>: both indices are clamped to the length and swapped
  when \<open>a > b\<close>.  \<open>substring_from s a\<close> is \<open>s.substring(a)\<close>.
\<close>

definition substring :: "jsstring \<Rightarrow> nat \<Rightarrow> nat \<Rightarrow> jsstring" where
  "substring s a b =
     (let a' = min a (length s); b' = min b (length s);
          lo = min a' b'; hi = max a' b'
      in take (hi - lo) (drop lo s))"

definition substring_from :: "jsstring \<Rightarrow> nat \<Rightarrow> jsstring" where
  "substring_from s a = drop (min a (length s)) s"

text \<open>
  The code units JavaScript calls white space (WhiteSpace and LineTerminator of the
  language definition): what \<open>trim\<close> strips and what \<open>\s\<close> matches.
\<close>

definition isLineTerminator :: "jschar \<Rightarrow> bool" where
  "isLineTerminator c = (c = 10 \<or> c = 13 \<or> c = 8232 \<or> c = 8233)"

definition isWhiteSpace :: "jschar \<Rightarrow> bool" where
  "isWhiteSpace c =
     (c = 9 \<or> c = 11 \<or> c = 12 \<or> c = 32 \<or> c = 160 \<or> c = 5760 \<or> (8192 \<le> c \<and> c \<le> 8202)
      \<or> c = 8239 \<or> c = 8287 \<or> c = 12288 \<or> c = 65279 \<or> isLineTerminator c)"

text \<open>\<open>String.prototype.trim()\<close>.\<close>

definition trim :: "jsstring \<Rightarrow> jsstring" where
  "trim s = rev (dropWhile isWhiteSpace (rev (dropWhile isWhiteSpace s)))"

text \<open>
  \<open>String.prototype.split(sep)\<close> with a string separator: the pieces between the
  successive, non-overlapping occurrences of \<open>sep\<close>, found from the left.  An empty
  separator cuts the string into its code units.
\<close>

function str_split :: "jsstring \<Rightarrow> jsstring \<Rightarrow> jsstring list" where
  "str_split s sep =
     (if sep = [] then map (\<lambda>c. [c]) s
      else case indexOf s sep 0 of
             None \<Rightarrow> [s]
           | Some i \<Rightarrow> take i s # str_split (drop (i + length sep) s) sep)"
  by pat_completeness auto
termination
proof (relation "measure (\<lambda>(s, sep). length s)")
  show "wf (measure (\<lambda>(s, sep). length s))" by simp
next
  fix s sep :: jsstring and i
  assume "sep \<noteq> []" and "indexOf s sep 0 = Some i"
  then have "s \<noteq> []"
    by (cases s) (auto simp: indexOf_def)
  with \<open>sep \<noteq> []\<close> show "((drop (i + length sep) s, sep), (s, sep)) \<in> measure (\<lambda>(s, sep). length s)"
    by (cases sep) auto
qed

declare str_split.simps [simp del]

section \<open>Regular expressions\<close>

text \<open>
  The two patterns of the validator use literals, greedy \<open>*\<close> and \<open>+\<close> over a character
  class, capture groups, one alternative and the end anchor \<open>$\<close> (no \<open>m\<close> flag: end of
  input only).  \<open>ms r s\<close> lists the ways \<open>r\<close> matches a prefix of \<open>s\<close>, in the order in
  which a backtracking matcher tries them (a greedy quantifier takes the longest run
  first); each way is the list of captured groups and the unread rest.  The match the
  engine reports is the first of the list.
\<close>

datatype regex =
    Lit jsstring
  | Star "jschar \<Rightarrow> bool"
  | Plus "jschar \<Rightarrow> bool"
  | Group regex
  | Seq regex regex
  | Alt regex regex
  | EndAnchor

fun ms :: "regex \<Rightarrow> jsstring \<Rightarrow> (jsstring list \<times> jsstring) list" where
  "ms (Lit p) s = (if prefix p s then [([], drop (length p) s)] else [])"
| "ms (Star c) s = map (\<lambda>n. ([], drop n s)) (rev [0 ..< Suc (length (takeWhile c s))])"
| "ms (Plus c) s = map (\<lambda>n. ([], drop n s)) (rev [1 ..< Suc (length (takeWhile c s))])"
| "ms (Group r) s = map (\<lambda>(caps, rest). (take (length s - length rest) s # caps, rest)) (ms r s)"
| "ms (Seq r1 r2) s =
     concat (map (\<lambda>(caps1, s1). map (\<lambda>(caps2, s2). (caps1 @ caps2, s2)) (ms r2 s1)) (ms r1 s))"
| "ms (Alt r1 r2) s = ms r1 s @ ms r2 s"
| "ms EndAnchor s = (if s = [] then [([], [])] else [])"

text \<open>One attempt at the start of \<open>s\<close>: the matched text and the captured groups.\<close>

definition exec_at :: "regex \<Rightarrow> jsstring \<Rightarrow> (jsstring \<times> jsstring list) option" where
  "exec_at r s =
     (case ms r s of
        [] \<Rightarrow> None
      | (caps, rest) # _ \<Rightarrow> Some (take (length s - length rest) s, caps))"

text \<open>
  \<open>s.match(r)\<close> without the \<open>g\<close> flag: the match at the leftmost position that has one,
  as the matched text (index 0 of the JavaScript array) and the groups (index 1 onwards);
  \<open>null\<close> is \<open>None\<close>.
\<close>

fun str_match :: "regex \<Rightarrow> jsstring \<Rightarrow> (jsstring \<times> jsstring list) option" where
  "str_match r [] = exec_at r []"
| "str_match r (c # cs) =
     (case exec_at r (c # cs) of
        Some m \<Rightarrow> Some m
      | None \<Rightarrow> str_match r cs)"

text \<open>
  \<open>s.match(r) || []\<close> with the \<open>g\<close> flag: the texts of all matches, each search starting
  where the previous match ended (one code unit further after an empty match).  The
  counter is the number of code units still covered by the previous match.
\<close>

fun str_match_all :: "regex \<Rightarrow> nat \<Rightarrow> jsstring \<Rightarrow> jsstring list" where
  "str_match_all r k [] =
     (if k = 0 then (case exec_at r [] of None \<Rightarrow> [] | Some (m, caps) \<Rightarrow> [m]) else [])"
| "str_match_all r k (c # cs) =
     (if 0 < k then str_match_all r (k - 1) cs
      else case exec_at r (c # cs) of
             None \<Rightarrow> str_match_all r 0 cs
           | Some (m, caps) \<Rightarrow> m # str_match_all r (length m - 1) cs)"

text \<open>The character classes \<open>\w\<close>, \<open>[\w-]\<close> and \<open>.\<close> (no \<open>s\<close> flag).\<close>

definition isWordChar :: "jschar \<Rightarrow> bool" where
  "isWordChar c = ((48 \<le> c \<and> c \<le> 57) \<or> (65 \<le> c \<and> c \<le> 90) \<or> c = 95 \<or> (97 \<le> c \<and> c \<le> 122))"

definition isWordOrDash :: "jschar \<Rightarrow> bool" where
  "isWordOrDash c = (isWordChar c \<or> c = 45)"

definition isDot :: "jschar \<Rightarrow> bool" where
  "isDot c = (\<not> isLineTerminator c)"

text \<open>\<open>/Globs:\s*(.+)(\n|$)/\<close>\<close>

definition GLOBS_RE :: regex where
  "GLOBS_RE =
     Seq (Lit (js ''Globs:''))
       (Seq (Star isWhiteSpace)
         (Seq (Group (Plus isDot))
              (Group (Alt (Lit (js ''\<newline>'')) EndAnchor))))"

text \<open>\<open>/@[\w-]+\.mdc/g\<close>\<close>

definition REF_RE :: regex where
  "REF_RE = Seq (Lit (js ''@'')) (Seq (Plus isWordOrDash) (Lit (js ''.mdc'')))"

section \<open>Validating one rule file\<close>

text \<open>
  The entries of the \<open>errors\<close> array.  The script pushes the message texts; \<open>message\<close>
  gives the text of each entry.
\<close>

datatype diagnostic =
    NoFrontmatter
  | NotClosed
  | MissingSection jsstring
  | GlobsEmpty
  | NonExistentRef jsstring
  | NoHeaderSections

fun message :: "diagnostic \<Rightarrow> jsstring" where
  "message NoFrontmatter = js ''File does not start with frontmatter (---)''"
| "message NotClosed = js ''Frontmatter is not properly closed (missing --- line)''"
| "message (MissingSection section) = js ''Missing required frontmatter section: '' @ section"
| "message GlobsEmpty = js ''Globs section is empty''"
| "message (NonExistentRef referencedFile) =
     js ''References non-existent rule file: '' @ referencedFile"
| "message NoHeaderSections = js ''Missing header sections (no # found)''"

definition REQUIRED_SECTIONS :: "jsstring list" where
  "REQUIRED_SECTIONS = [js ''Description'', js ''Globs'']"

text \<open>The delimiter line \<open>'\n---\n'\<close> the script searches for.\<close>

definition DELIM :: jsstring where
  "DELIM = js ''\<newline>---\<newline>''"

record rule_entry =
  path :: jsstring

record validation =
  valid :: bool
  errors :: "diagnostic list"

text \<open>Check if file has frontmatter.\<close>

definition checkStart :: "jsstring \<Rightarrow> diagnostic list" where
  "checkStart content = (if \<not> startsWith content (js ''---'') then [NoFrontmatter] else [])"

text \<open>Check if frontmatter ends properly.\<close>

definition checkClosed :: "jsstring \<Rightarrow> diagnostic list" where
  "checkClosed content = (if \<not> str_includes content DELIM then [NotClosed] else [])"

text \<open>Extract frontmatter.\<close>

definition extractFrontmatter :: "jsstring \<Rightarrow> jsstring" where
  "extractFrontmatter content =
     (if startsWith content (js ''---'') then
        (case indexOf content DELIM 3 of
           Some endOfFrontmatter \<Rightarrow> trim (substring content 3 endOfFrontmatter)
         | None \<Rightarrow> [])
      else [])"

text \<open>Check required frontmatter sections.\<close>

definition checkSections :: "jsstring \<Rightarrow> diagnostic list" where
  "checkSections frontmatter =
     concat (map (\<lambda>section.
        if \<not> str_includes frontmatter (section @ js '':'') then [MissingSection section] else [])
      REQUIRED_SECTIONS)"

text \<open>Check for valid globs.\<close>

definition checkGlobs :: "jsstring \<Rightarrow> diagnostic list" where
  "checkGlobs frontmatter =
     (case str_match GLOBS_RE frontmatter of
        None \<Rightarrow> []
      | Some (whole, groups) \<Rightarrow>
          (let globs = trim (groups ! 0)
           in if globs = [] then [GlobsEmpty] else []))"

text \<open>Check references to other rule files.\<close>

definition checkReferences :: "jsstring \<Rightarrow> (jsstring \<rightharpoonup> rule_entry) \<Rightarrow> diagnostic list" where
  "checkReferences content allRules =
     (let references = str_match_all REF_RE 0 content
      in concat (map (\<lambda>ref.
           let referencedFile = substring_from ref 1
           in if allRules referencedFile = None then [NonExistentRef referencedFile] else [])
         references))"

text \<open>
  Check for basic content sections: \<open>content.split('\n---\n')[1] || ''\<close> is the second
  piece of the split, or the empty string when there is none.
\<close>

definition mainContent :: "jsstring \<Rightarrow> jsstring" where
  "mainContent content = (case str_split content DELIM of _ # piece # _ \<Rightarrow> piece | _ \<Rightarrow> [])"

definition checkContent :: "jsstring \<Rightarrow> diagnostic list" where
  "checkContent content =
     (if \<not> str_includes (mainContent content) (js ''#'') then [NoHeaderSections] else [])"

definition validateRuleFile ::
  "jsstring \<Rightarrow> jsstring \<Rightarrow> (jsstring \<rightharpoonup> rule_entry) \<Rightarrow> validation" where
  "validateRuleFile filename content allRules =
     (let frontmatter = extractFrontmatter content;
          errors = checkStart content @ checkClosed content @ checkSections frontmatter
                   @ checkGlobs frontmatter @ checkReferences content allRules
                   @ checkContent content
      in \<lparr>valid = (length errors = 0), errors = errors\<rparr>)"

section \<open>The run over the rules directory\<close>

text \<open>
  What the script reads from its environment: \<open>RULES_DIR\<close> (resolved from the working
  directory when the script is loaded), whether that directory exists, the result of
  \<open>globSync('**/*.mdc', {cwd: RULES_DIR})\<close> in the order the library returns it, and
  \<open>readFileSync\<close>, which is \<open>None\<close> where the call throws.
\<close>

record world =
  RULES_DIR :: jsstring
  existsSync :: bool
  globSync :: "jsstring list"
  readFileSync :: "jsstring \<Rightarrow> jsstring option"

text \<open>\<open>path.join(dir, file)\<close> for a directory and a relative path that are already normal.\<close>

definition path_join :: "jsstring \<Rightarrow> jsstring \<Rightarrow> jsstring" where
  "path_join dir file = dir @ js ''/'' @ file"

text \<open>The lines the script writes to the console, without their colours.\<close>

datatype console =
    Validating
  | DirNotFound jsstring
  | NoRuleFiles
  | FoundFiles nat
  | FileValid jsstring
  | FileInvalid jsstring
  | FileError jsstring
  | SummaryHeader
  | ValidCount nat
  | InvalidCount int
  | AllValid
  | ErrorDuringValidation

record run =
  printed :: "console list"
  exitCode :: nat

text \<open>First pass: collect all rules.\<close>

fun firstPass :: "world \<Rightarrow> jsstring list \<Rightarrow> (jsstring \<rightharpoonup> rule_entry) \<Rightarrow> (jsstring \<rightharpoonup> rule_entry)" where
  "firstPass w [] allRules = allRules"
| "firstPass w (file # files) allRules =
     (let filePath = path_join (RULES_DIR w) file
      in firstPass w files (allRules(file \<mapsto> \<lparr>path = filePath\<rparr>)))"

text \<open>
  Second pass: validate each rule file.  A read that throws leaves the loop (\<open>Inl\<close>, with
  what was printed so far) for the handler at the end of the script.
\<close>

record pass =
  hasErrors :: bool
  validFiles :: "jsstring list"
  out :: "console list"

fun secondPass ::
  "world \<Rightarrow> (jsstring \<rightharpoonup> rule_entry) \<Rightarrow> jsstring list \<Rightarrow> pass \<Rightarrow> console list + pass" where
  "secondPass w allRules [] st = Inr st"
| "secondPass w allRules (file # files) st =
     (let filePath = path_join (RULES_DIR w) file
      in case readFileSync w filePath of
           None \<Rightarrow> Inl (out st)
         | Some content \<Rightarrow>
             (let result = validateRuleFile file content allRules
              in if valid result
                 then secondPass w allRules files
                        (st\<lparr>validFiles := validFiles st @ [file],
                            out := out st @ [FileValid file]\<rparr>)
                 else secondPass w allRules files
                        (st\<lparr>hasErrors := True,
                            out := out st @ FileInvalid file
                                     # map (\<lambda>error. FileError (message error)) (errors result)\<rparr>)))"

text \<open>
  \<open>validateRules\<close> together with the handler of the last lines of the script: the console
  output and the exit code of the process (0 when the script runs to its end).
\<close>

definition validateRules :: "world \<Rightarrow> run" where
  "validateRules w =
     (if \<not> existsSync w
      then \<lparr>printed = [Validating, DirNotFound (RULES_DIR w)], exitCode = 1\<rparr>
      else
        (let ruleFiles = globSync w
         in if length ruleFiles = 0
            then \<lparr>printed = [Validating, NoRuleFiles], exitCode = 0\<rparr>
            else
              (let allRules = firstPass w ruleFiles Map.empty
               in case secondPass w allRules ruleFiles
                         \<lparr>hasErrors = False, validFiles = [],
                          out = [Validating, FoundFiles (length ruleFiles)]\<rparr> of
                    Inl lines \<Rightarrow> \<lparr>printed = lines @ [ErrorDuringValidation], exitCode = 1\<rparr>
                  | Inr st \<Rightarrow>
                      (let summary =
                             out st @ [SummaryHeader, ValidCount (length (validFiles st)),
                               InvalidCount (int (length ruleFiles) - int (length (validFiles st)))]
                       in if hasErrors st
                          then \<lparr>printed = summary, exitCode = 1\<rparr>
                          else \<lparr>printed = summary @ [AllValid], exitCode = 0\<rparr>))))"

section \<open>Notions of the specification and example inputs\<close>

text \<open>
  The specification's ``line-leading heading marker'': a \<open>#\<close> that is the first code unit
  of the body or the first one after a line break.
\<close>

definition spec_line_leading_heading :: "jsstring \<Rightarrow> bool" where
  "spec_line_leading_heading body =
     (startsWith body (js ''#'') \<or> str_includes body (js ''\<newline>#''))"

text \<open>A rule file whose body has a horizontal rule before its first heading.\<close>

definition doc_rule_in_body :: jsstring where
  "doc_rule_in_body =
     js ''---\<newline>Description: d\<newline>Globs: *.ts\<newline>---\<newline>Intro\<newline>---\<newline># Rules\<newline>''"

text \<open>Rule files whose \<open>Globs\<close> key has no value, or only blanks.\<close>

definition doc_globs_empty :: jsstring where
  "doc_globs_empty = js ''---\<newline>Description: d\<newline>Globs:\<newline>---\<newline># T\<newline>''"

definition doc_globs_blank :: jsstring where
  "doc_globs_blank = js ''---\<newline>Globs:   \<newline>Description: d\<newline>---\<newline># T\<newline>''"

text \<open>A text without any header block.\<close>

definition doc_no_header :: jsstring where
  "doc_no_header = js ''# Title\<newline>''"

text \<open>A rule file that names an unknown rule file in its header block only.\<close>

definition doc_ref_in_header :: jsstring where
  "doc_ref_in_header =
     js ''---\<newline>Description: see @ghost.mdc\<newline>Globs: *.ts\<newline>---\<newline># T\<newline>''"

text \<open>A rule file whose body has a \<open>#\<close> in the middle of a line only.\<close>

definition doc_hash_mid_line :: jsstring where
  "doc_hash_mid_line =
     js ''---\<newline>Description: d\<newline>Globs: *.ts\<newline>---\<newline>Use C# here\<newline>''"

text \<open>A rule file whose header has both keys inside the value of another key.\<close>

definition doc_keys_in_value :: jsstring where
  "doc_keys_in_value = js ''---\<newline>Note: Description: x Globs: y\<newline>---\<newline># T\<newline>''"

text \<open>A text with a reference into a subdirectory and one to an unknown file.\<close>

definition doc_subdir_ref :: jsstring where
  "doc_subdir_ref = js ''see @dir/file.mdc and @ghost.mdc''"

text \<open>Two rule files that reference each other, and the directory in both orders.\<close>

definition doc_a :: jsstring where
  "doc_a = js ''---\<newline>Description: A\<newline>Globs: *.a\<newline>---\<newline># A\<newline>@b.mdc\<newline>''"

definition doc_b :: jsstring where
  "doc_b = js ''---\<newline>Description: B\<newline>Globs: *.b\<newline>---\<newline># B\<newline>@a.mdc\<newline>''"

definition read_ab :: "jsstring \<Rightarrow> jsstring option" where
  "read_ab p =
     (if p = js ''/repo/.cursor/rules/a.mdc'' then Some doc_a
      else if p = js ''/repo/.cursor/rules/b.mdc'' then Some doc_b
      else None)"

definition world_ab :: world where
  "world_ab = \<lparr>RULES_DIR = js ''/repo/.cursor/rules'', existsSync = True,
               globSync = [js ''a.mdc'', js ''b.mdc''], readFileSync = read_ab\<rparr>"

definition world_ba :: world where
  "world_ba = \<lparr>RULES_DIR = js ''/repo/.cursor/rules'', existsSync = True,
               globSync = [js ''b.mdc'', js ''a.mdc''], readFileSync = read_ab\<rparr>"

text \<open>A directory with one text without header block.\<close>

definition world_one :: world where
  "world_one = \<lparr>RULES_DIR = js ''/repo/.cursor/rules'', existsSync = True,
                globSync = [js ''a.mdc''],
                readFileSync = (\<lambda>p. if p = js ''/repo/.cursor/rules/a.mdc''
                                    then Some doc_no_header else None)\<rparr>"

text \<open>A directory whose only listed entry cannot be read.\<close>

definition world_unreadable :: world where
  "world_unreadable = \<lparr>RULES_DIR = js ''/repo/.cursor/rules'', existsSync = True,
                globSync = [js ''a.mdc''], readFileSync = (\<lambda>p. None)\<rparr>"

text \<open>A directory with a text without header block and a valid rule file, in both orders.\<close>

definition read_pq :: "jsstring \<Rightarrow> jsstring option" where
  "read_pq p =
     (if p = js ''/repo/.cursor/rules/p.mdc'' then Some doc_no_header
      else if p = js ''/repo/.cursor/rules/q.mdc'' then Some doc_globs_empty
      else None)"

definition world_pq :: world where
  "world_pq = \<lparr>RULES_DIR = js ''/repo/.cursor/rules'', existsSync = True,
               globSync = [js ''p.mdc'', js ''q.mdc''], readFileSync = read_pq\<rparr>"

definition world_qp :: world where
  "world_qp = \<lparr>RULES_DIR = js ''/repo/.cursor/rules'', existsSync = True,
               globSync = [js ''q.mdc'', js ''p.mdc''], readFileSync = read_pq\<rparr>"

text \<open>
  What one iteration of the second pass does for a file that can be read: whether the
  file counts as valid, and the lines it prints.
\<close>

definition fileValid :: "world \<Rightarrow> (jsstring \<rightharpoonup> rule_entry) \<Rightarrow> jsstring \<Rightarrow> bool" where
  "fileValid w allRules file =
     (case readFileSync w (path_join (RULES_DIR w) file) of
        None \<Rightarrow> False
      | Some content \<Rightarrow> valid (validateRuleFile file content allRules))"

definition fileLines :: "world \<Rightarrow> (jsstring \<rightharpoonup> rule_entry) \<Rightarrow> jsstring \<Rightarrow> console list" where
  "fileLines w allRules file =
     (case readFileSync w (path_join (RULES_DIR w) file) of
        None \<Rightarrow> []
      | Some content \<Rightarrow>
          (let result = validateRuleFile file content allRules
           in if valid result then [FileValid file]
              else FileInvalid file
                     # map (\<lambda>error. FileError (message error)) (errors result)))"

section \<open>Evaluation and basic facts\<close>

lemmas string_defs =
  js_def startsWith_def str_includes_def indexOf_def substring_def substring_from_def trim_def
  isWhiteSpace_def isLineTerminator_def isDot_def isWordOrDash_def isWordChar_def
  str_split.simps DELIM_def

lemmas check_defs =
  checkStart_def checkClosed_def extractFrontmatter_def checkSections_def checkGlobs_def
  checkReferences_def checkContent_def mainContent_def REQUIRED_SECTIONS_def GLOBS_RE_def
  REF_RE_def exec_at_def Let_def

subsection \<open>The list of diagnostics\<close>

lemma errors_validateRuleFile:
  "errors (validateRuleFile filename content allRules) =
     checkStart content @ checkClosed content @ checkSections (extractFrontmatter content)
     @ checkGlobs (extractFrontmatter content) @ checkReferences content allRules
     @ checkContent content"
  by (simp add: validateRuleFile_def Let_def)

lemma valid_validateRuleFile:
  "valid (validateRuleFile filename content allRules) =
     (errors (validateRuleFile filename content allRules) = [])"
  by (simp add: validateRuleFile_def Let_def)

lemma find_at_sublist: "find_at p s k \<noteq> None \<longleftrightarrow> sublist p s"
proof (induction s arbitrary: k)
  case Nil
  then show ?case by simp
next
  case (Cons c cs)
  show ?case
  proof (cases "prefix p (c # cs)")
    case True
    then show ?thesis by (auto simp: prefix_imp_sublist)
  next
    case False
    then show ?thesis using Cons.IH [of "Suc k"] by (simp add: sublist_Cons_right)
  qed
qed

lemma str_includes_sublist: "str_includes s p \<longleftrightarrow> sublist p s"
  using find_at_sublist [of p s 0] by (simp add: str_includes_def indexOf_def)

lemma set_checkStart: "set (checkStart content) \<subseteq> {NoFrontmatter}"
  by (auto simp: checkStart_def)

lemma set_checkClosed: "set (checkClosed content) \<subseteq> {NotClosed}"
  by (auto simp: checkClosed_def)

lemma set_checkGlobs: "set (checkGlobs frontmatter) \<subseteq> {GlobsEmpty}"
  by (auto simp: checkGlobs_def Let_def split: option.splits)

lemma set_checkContent: "set (checkContent content) \<subseteq> {NoHeaderSections}"
  by (auto simp: checkContent_def)

lemma set_checkSections:
  "set (checkSections frontmatter) =
     {MissingSection section | section.
        section \<in> set REQUIRED_SECTIONS \<and> \<not> str_includes frontmatter (section @ js '':'')}"
  by (auto simp: checkSections_def)

lemma set_checkReferences:
  "set (checkReferences content allRules) =
     {NonExistentRef (substring_from ref 1) | ref.
        ref \<in> set (str_match_all REF_RE 0 content) \<and> allRules (substring_from ref 1) = None}"
  by (auto simp: checkReferences_def Let_def)

lemma indexOf_after_opening:
  assumes "startsWith content (js ''---'')"
  shows "indexOf content DELIM 0 = indexOf content DELIM 3"
proof -
  from assms obtain rest where "content = 45 # 45 # 45 # rest"
    by (auto simp: startsWith_def js_def prefix_def)
  then show ?thesis
    by (simp add: indexOf_def DELIM_def js_def)
qed

lemma mainContent_single:
  assumes "indexOf content DELIM 0 = Some e"
    and "\<not> str_includes (substring_from content (e + 5)) DELIM"
  shows "mainContent content = substring_from content (e + 5)"
proof -
  have len: "length DELIM = 5" by (simp add: DELIM_def js_def)
  then have ne: "DELIM \<noteq> []" by auto
  from assms(1) have "sublist DELIM content"
    using find_at_sublist [of DELIM content 0] by (simp add: indexOf_def)
  have sf: "substring_from content (e + 5) = drop (e + 5) content"
    by (simp add: substring_from_def min_def)
  have "str_split (drop (e + 5) content) DELIM = [drop (e + 5) content]"
    using assms(2) ne sf by (subst str_split.simps) (simp add: str_includes_def)
  then have "str_split content DELIM = [take e content, drop (e + 5) content]"
    using assms(1) ne len by (subst str_split.simps) simp
  then show ?thesis by (simp add: mainContent_def sf)
qed

lemma trim_keeps_sublist:
  assumes "sublist p s" and "p \<noteq> []"
    and "\<not> isWhiteSpace (hd p)" and "\<not> isWhiteSpace (last p)"
  shows "sublist p (trim s)"
proof -
  have left: "\<exists>u' v'. dropWhile isWhiteSpace (u @ p @ v) = u' @ p @ v'" for u v
  proof (cases "\<forall>c\<in>set u. isWhiteSpace c")
    case True
    then have "dropWhile isWhiteSpace (u @ p @ v) = dropWhile isWhiteSpace (p @ v)"
      by (simp add: dropWhile_append)
    also have "\<dots> = p @ v"
      using assms(2,3) by (cases p) auto
    finally show ?thesis by (metis append_Nil)
  next
    case False
    then have "dropWhile isWhiteSpace (u @ p @ v) = dropWhile isWhiteSpace u @ p @ v"
      by (auto simp: dropWhile_append)
    then show ?thesis by blast
  qed
  from assms(1) obtain u v where s: "s = u @ p @ v"
    by (auto simp: sublist_def)
  from left obtain u1 v1 where 1: "dropWhile isWhiteSpace s = u1 @ p @ v1"
    unfolding s by blast
  have rp: "rev p \<noteq> []" "\<not> isWhiteSpace (hd (rev p))"
    using assms(2,4) by (simp_all add: hd_rev)
  have "\<exists>u' v'. dropWhile isWhiteSpace (rev v1 @ rev p @ rev u1) = u' @ rev p @ v'"
  proof (cases "\<forall>c\<in>set (rev v1). isWhiteSpace c")
    case True
    then have "dropWhile isWhiteSpace (rev v1 @ rev p @ rev u1)
                 = dropWhile isWhiteSpace (rev p @ rev u1)"
      by (simp add: dropWhile_append)
    also have "\<dots> = rev p @ rev u1"
      using rp by (cases "rev p") auto
    finally show ?thesis by (metis append_Nil)
  next
    case False
    then have "dropWhile isWhiteSpace (rev v1 @ rev p @ rev u1)
                 = dropWhile isWhiteSpace (rev v1) @ rev p @ rev u1"
      by (auto simp: dropWhile_append)
    then show ?thesis by blast
  qed
  then obtain u2 v2 where "dropWhile isWhiteSpace (rev (u1 @ p @ v1)) = u2 @ rev p @ v2"
    by auto
  then have "trim s = rev v2 @ p @ rev u2"
    by (simp add: trim_def 1)
  then show ?thesis by (auto simp: sublist_def)
qed

subsection \<open>What the reference pattern matches\<close>

lemma ms_Seq_iff:
  "(caps, rest) \<in> set (ms (Seq r1 r2) s) \<longleftrightarrow>
     (\<exists>caps1 s1 caps2. (caps1, s1) \<in> set (ms r1 s) \<and> (caps2, rest) \<in> set (ms r2 s1)
        \<and> caps = caps1 @ caps2)"
  by force

lemma ms_Lit_iff: "(caps, rest) \<in> set (ms (Lit p) s) \<longleftrightarrow> caps = [] \<and> s = p @ rest"
  by (auto simp: prefix_def)

lemma ms_Plus_run:
  assumes "(caps, rest) \<in> set (ms (Plus c) s)"
  shows "\<exists>w. s = w @ rest \<and> w \<noteq> [] \<and> (\<forall>x\<in>set w. c x) \<and> caps = []"
proof -
  from assms obtain n where n: "1 \<le> n" "n \<le> length (takeWhile c s)" "rest = drop n s" "caps = []"
    by auto
  have "take n s = take n (takeWhile c s)"
    using n(2) by (metis takeWhile_dropWhile_id append_eq_conv_conj append_take_drop_id
        take_append min.absorb2 length_take diff_is_0_eq take_0 append_Nil2)
  then have "\<forall>x\<in>set (take n s). c x"
    by (metis in_set_takeD set_takeWhileD)
  moreover have "take n s \<noteq> []"
    using n(1,2) by (metis One_nat_def Suc_le_lessD length_greater_0_conv length_takeWhile_le
        less_le_trans take_eq_Nil not_less_eq_eq le_zero_eq list.size(3))
  ultimately show ?thesis using n(3,4) by (metis append_take_drop_id)
qed

lemma ms_REF_RE_shape:
  assumes "(caps, rest) \<in> set (ms REF_RE s)"
  shows "\<exists>w. s = js ''@'' @ w @ js ''.mdc'' @ rest \<and> w \<noteq> [] \<and> (\<forall>x\<in>set w. isWordOrDash x)"
proof -
  from assms obtain s1 s2 c2 where a: "s = js ''@'' @ s1"
    and b: "(c2, s2) \<in> set (ms (Plus isWordOrDash) s1)" and c: "s2 = js ''.mdc'' @ rest"
    unfolding REF_RE_def ms_Seq_iff ms_Lit_iff by blast
  from ms_Plus_run [OF b] a c show ?thesis by auto
qed

lemma exec_at_REF_RE_shape:
  assumes "exec_at REF_RE s = Some (m, caps)"
  shows "\<exists>w. m = js ''@'' @ w @ js ''.mdc'' \<and> w \<noteq> [] \<and> (\<forall>x\<in>set w. isWordOrDash x)"
proof -
  from assms obtain rest where r: "(caps, rest) \<in> set (ms REF_RE s)"
    and m: "m = take (length s - length rest) s"
    by (auto simp: exec_at_def split: list.splits)
  from ms_REF_RE_shape [OF r] obtain w where
    s: "s = (js ''@'' @ w @ js ''.mdc'') @ rest" and w: "w \<noteq> []" "\<forall>x\<in>set w. isWordOrDash x"
    by auto
  have "take (length s - length rest) s = js ''@'' @ w @ js ''.mdc''"
    by (subst (1 2) s) simp
  with m w show ?thesis by blast
qed

lemma str_match_all_elem:
  "(\<And>s m caps. exec_at r s = Some (m, caps) \<Longrightarrow> P m) \<Longrightarrow>
   ref \<in> set (str_match_all r k s) \<Longrightarrow> P ref"
proof (induction r k s rule: str_match_all.induct)
  case (1 r k)
  have "\<exists>caps. exec_at r [] = Some (ref, caps)"
  proof (cases "k = 0")
    case True
    with "1.prems"(2) show ?thesis
      by (cases "exec_at r []") auto
  next
    case False
    with "1.prems"(2) show ?thesis by simp
  qed
  then show ?case using "1.prems"(1) by blast
next
  case (2 r k c cs)
  show ?case
  proof (cases "0 < k")
    case True
    with 2 show ?thesis by simp
  next
    case False
    show ?thesis
    proof (cases "exec_at r (c # cs)")
      case None
      with 2 False show ?thesis by simp
    next
      case (Some a)
      obtain m caps where a: "a = (m, caps)" by (cases a)
      from "2.prems"(2) False Some a
      have "ref = m \<or> ref \<in> set (str_match_all r (length m - 1) cs)" by simp
      then show ?thesis
      proof
        assume "ref = m"
        with "2.prems"(1) Some a show ?thesis by blast
      next
        assume "ref \<in> set (str_match_all r (length m - 1) cs)"
        with "2.IH"(3) [OF False Some [unfolded a] refl "2.prems"(1)] show ?thesis by simp
      qed
    qed
  qed
qed

lemma str_match_all_REF_RE_shape:
  "ref \<in> set (str_match_all REF_RE k s) \<Longrightarrow>
     \<exists>w. ref = js ''@'' @ w @ js ''.mdc'' \<and> w \<noteq> [] \<and> (\<forall>x\<in>set w. isWordOrDash x)"
  by (rule str_match_all_elem [where r = REF_RE]) (rule exec_at_REF_RE_shape)

lemma exec_at_REF_RE_token:
  assumes "w \<noteq> []" and "\<forall>x\<in>set w. isWordOrDash x"
  shows "exec_at REF_RE (js ''@'' @ w @ js ''.mdc'' @ post) = Some (js ''@'' @ w @ js ''.mdc'', [])"
proof -
  let ?s1 = "w @ js ''.mdc'' @ post"
  let ?G = "\<lambda>(caps1 :: jsstring list, s1). map (\<lambda>(caps2, s2). (caps1 @ caps2, s2))
              (ms (Lit (js ''.mdc'')) s1)"
  have "\<not> isWordOrDash 46" by (simp add: isWordOrDash_def isWordChar_def)
  with assms(2) have tw: "takeWhile isWordOrDash ?s1 = w"
    by (simp add: js_def)
  from assms(1) have up: "rev [1 ..< Suc (length w)] = length w # rev [1 ..< length w]"
    by (cases w) simp_all
  have "ms (Plus isWordOrDash) ?s1 = map (\<lambda>n. ([], drop n ?s1)) (rev [1 ..< Suc (length w)])"
    by (simp only: ms.simps tw)
  also have "\<dots> = ([], js ''.mdc'' @ post) # map (\<lambda>n. ([], drop n ?s1)) (rev [1 ..< length w])"
    by (simp only: up list.map) simp
  finally obtain others where p: "ms (Plus isWordOrDash) ?s1 = ([], js ''.mdc'' @ post) # others"
    by blast
  have "ms (Seq (Plus isWordOrDash) (Lit (js ''.mdc''))) ?s1 = concat (map ?G (ms (Plus isWordOrDash) ?s1))"
    by (simp only: ms.simps)
  also have "\<dots> = ?G ([], js ''.mdc'' @ post) @ concat (map ?G others)"
    by (simp only: p list.map concat.simps)
  also have "?G ([], js ''.mdc'' @ post) = [([], post)]"
    by simp
  finally obtain more where
    q: "ms (Seq (Plus isWordOrDash) (Lit (js ''.mdc''))) ?s1 = ([], post) # more"
    by simp
  have "ms REF_RE (js ''@'' @ ?s1)
          = concat (map (\<lambda>(caps1, s1). map (\<lambda>(caps2, s2). (caps1 @ caps2, s2))
                (ms (Seq (Plus isWordOrDash) (Lit (js ''.mdc''))) s1)) (ms (Lit (js ''@'')) (js ''@'' @ ?s1)))"
    unfolding REF_RE_def by (simp only: ms.simps(5))
  also have "ms (Lit (js ''@'')) (js ''@'' @ ?s1) = [([], ?s1)]"
    by simp
  finally have "ms REF_RE (js ''@'' @ ?s1) = ([], post) # more"
    by (simp add: q del: ms.simps)
  then show ?thesis
    by (simp add: exec_at_def)
qed

lemma exec_at_take: "exec_at r s = Some (m, caps) \<Longrightarrow> \<exists>n. m = take n s"
  by (auto simp: exec_at_def split: list.splits)

lemma REF_RE_match_before_at:
  assumes "exec_at REF_RE (c # pre @ 64 # rest) = Some (m, caps)"
  shows "length m - 1 \<le> length pre"
proof (rule ccontr)
  assume "\<not> length m - 1 \<le> length pre"
  then have long: "length pre + 1 < length m" by simp
  from exec_at_take [OF assms] obtain n where n: "m = take n (c # pre @ 64 # rest)" by blast
  with long have "length pre + 1 < n" by simp
  then obtain k where k: "n = Suc (length pre + Suc k)"
    by (auto simp: less_iff_Suc_add)
  have m: "m = c # pre @ 64 # take k rest"
    unfolding n k by simp
  from exec_at_REF_RE_shape [OF assms] obtain w where
    w: "m = js ''@'' @ w @ js ''.mdc''" "\<forall>x\<in>set w. isWordOrDash x" by blast
  have "\<not> isWordOrDash 64" by (simp add: isWordOrDash_def isWordChar_def)
  with w(2) have "64 \<notin> set w" by blast
  then have "64 \<notin> set (tl m)" by (simp add: w(1) js_def)
  moreover have "64 \<in> set (tl m)" by (simp add: m)
  ultimately show False by contradiction
qed

lemma REF_RE_token_found:
  assumes "w \<noteq> []" and "\<forall>x\<in>set w. isWordOrDash x"
  shows "k \<le> length pre \<Longrightarrow>
         js ''@'' @ w @ js ''.mdc''
           \<in> set (str_match_all REF_RE k (pre @ js ''@'' @ w @ js ''.mdc'' @ post))"
proof (induction pre arbitrary: k)
  case Nil
  obtain cs where cs: "js ''@'' @ w @ js ''.mdc'' @ post = 64 # cs"
    by (simp add: js_def)
  have "js ''@'' @ w @ js ''.mdc'' \<in> set (str_match_all REF_RE 0 (64 # cs))"
    using exec_at_REF_RE_token [OF assms, of post] unfolding cs by simp
  with Nil cs show ?case by simp
next
  case (Cons c pre)
  let ?tok = "js ''@'' @ w @ js ''.mdc''"
  obtain rest where rest: "?tok @ post = 64 # rest"
    by (simp add: js_def)
  show ?case
  proof (cases "0 < k")
    case True
    with Cons.prems have "k - 1 \<le> length pre" by simp
    from Cons.IH [OF this] True show ?thesis by simp
  next
    case False
    show ?thesis
    proof (cases "exec_at REF_RE (c # pre @ ?tok @ post)")
      case None
      with False Cons.IH [of 0] show ?thesis by simp
    next
      case (Some a)
      obtain m caps where a: "a = (m, caps)" by (cases a)
      from Some a have "exec_at REF_RE (c # pre @ 64 # rest) = Some (m, caps)"
        using rest by simp
      then have "length m - 1 \<le> length pre" by (rule REF_RE_match_before_at)
      from Cons.IH [OF this] False Some a show ?thesis by simp
    qed
  qed
qed

subsection \<open>The two passes\<close>

lemma secondPass_cong:
  assumes "RULES_DIR w1 = RULES_DIR w2"
    and "\<forall>file\<in>set files. readFileSync w1 (path_join (RULES_DIR w1) file)
                             = readFileSync w2 (path_join (RULES_DIR w2) file)"
  shows "secondPass w1 allRules files st = secondPass w2 allRules files st"
  using assms(2)
proof (induction files arbitrary: st)
  case Nil
  then show ?case by simp
next
  case (Cons f files)
  then have "readFileSync w1 (path_join (RULES_DIR w1) f)
               = readFileSync w2 (path_join (RULES_DIR w2) f)"
    and "\<And>st. secondPass w1 allRules files st = secondPass w2 allRules files st"
    by simp_all
  then show ?case
    by (simp add: assms(1) Let_def split: option.splits)
qed

lemma dom_firstPass: "dom (firstPass w files allRules) = dom allRules \<union> set files"
  by (induction files arbitrary: allRules) (auto simp: Let_def)

lemma message_NonExistentRef:
  "message e = message (NonExistentRef target) \<Longrightarrow> e = NonExistentRef target"
  by (cases e) (simp_all add: js_def)

lemma secondPass_lines:
  assumes "\<And>f content e. f \<in> set files \<Longrightarrow>
             readFileSync w (path_join (RULES_DIR w) f) = Some content \<Longrightarrow>
             e \<in> set (errors (validateRuleFile f content allRules)) \<Longrightarrow> message e \<noteq> x"
    and "FileError x \<notin> set (out st)"
  shows "case secondPass w allRules files st of
           Inl lines \<Rightarrow> FileError x \<notin> set lines
         | Inr st' \<Rightarrow> FileError x \<notin> set (out st')"
  using assms
proof (induction files arbitrary: st)
  case Nil
  then show ?case by simp
next
  case (Cons f files)
  show ?case
  proof (cases "readFileSync w (path_join (RULES_DIR w) f)")
    case None
    with Cons.prems(2) show ?thesis by simp
  next
    case (Some content)
    let ?ok = "st\<lparr>validFiles := validFiles st @ [f], out := out st @ [FileValid f]\<rparr>"
    let ?bad = "st\<lparr>hasErrors := True,
                   out := out st @ FileInvalid f
                     # map (\<lambda>error. FileError (message error))
                         (errors (validateRuleFile f content allRules))\<rparr>"
    have here: "message e \<noteq> x" if "e \<in> set (errors (validateRuleFile f content allRules))" for e
      using Cons.prems(1) [of f content e] Some that by simp
    have later: "message e \<noteq> x"
      if "g \<in> set files" "readFileSync w (path_join (RULES_DIR w) g) = Some content'"
        "e \<in> set (errors (validateRuleFile g content' allRules))" for g content' e
      using Cons.prems(1) [of g content' e] that by simp
    have ok: "FileError x \<notin> set (out ?ok)"
      using Cons.prems(2) by simp
    have bad: "FileError x \<notin> set (out ?bad)"
      using Cons.prems(2) here by auto
    show ?thesis
    proof (cases "valid (validateRuleFile f content allRules)")
      case True
      then have "secondPass w allRules (f # files) st = secondPass w allRules files ?ok"
        by (simp add: Some Let_def)
      with Cons.IH [OF later ok] show ?thesis by simp
    next
      case False
      then have "secondPass w allRules (f # files) st = secondPass w allRules files ?bad"
        by (simp add: Some Let_def)
      with Cons.IH [OF later bad] show ?thesis by simp
    qed
  qed
qed

lemma NonExistentRef_iff:
  "NonExistentRef target \<in> set (errors (validateRuleFile filename content allRules)) \<longleftrightarrow>
     (\<exists>ref\<in>set (str_match_all REF_RE 0 content).
        target = substring_from ref 1 \<and> allRules target = None)"
proof -
  have "NonExistentRef target \<in> set (errors (validateRuleFile filename content allRules)) \<longleftrightarrow>
          NonExistentRef target \<in> set (checkReferences content allRules)"
    using set_checkStart [of content] set_checkClosed [of content]
      set_checkGlobs [of "extractFrontmatter content"] set_checkContent [of content]
    by (auto simp: errors_validateRuleFile set_checkSections)
  then show ?thesis by (auto simp: set_checkReferences)
qed

lemma secondPass_status:
  "(case secondPass w allRules files st of Inl lines \<Rightarrow> True | Inr st' \<Rightarrow> hasErrors st')
     \<longleftrightarrow> hasErrors st \<or>
         (\<exists>f\<in>set files.
            case readFileSync w (path_join (RULES_DIR w) f) of
              None \<Rightarrow> True
            | Some content \<Rightarrow> errors (validateRuleFile f content allRules) \<noteq> [])"
proof (induction files arbitrary: st)
  case Nil
  then show ?case by simp
next
  case (Cons f files)
  show ?case
  proof (cases "readFileSync w (path_join (RULES_DIR w) f)")
    case None
    then show ?thesis by simp
  next
    case (Some content)
    show ?thesis
    proof (cases "errors (validateRuleFile f content allRules) = []")
      case True
      with Some Cons.IH show ?thesis
        by (simp add: Let_def valid_validateRuleFile)
    next
      case False
      with Some Cons.IH show ?thesis
        by (simp add: Let_def valid_validateRuleFile)
    qed
  qed
qed

lemma exitCode_validateRules:
  assumes "existsSync w"
  shows "exitCode (validateRules w) =
           (if \<exists>file\<in>set (globSync w).
                 case readFileSync w (path_join (RULES_DIR w) file) of
                   None \<Rightarrow> True
                 | Some content \<Rightarrow>
                     errors (validateRuleFile file content (firstPass w (globSync w) Map.empty)) \<noteq> []
            then 1 else 0)"
proof (cases "globSync w = []")
  case True
  with assms show ?thesis by (simp add: validateRules_def)
next
  case False
  let ?st = "\<lparr>hasErrors = False, validFiles = [],
               out = [Validating, FoundFiles (length (globSync w))]\<rparr>"
  let ?r = "secondPass w (firstPass w (globSync w) Map.empty) (globSync w) ?st"
  have "exitCode (validateRules w)
          = (if (case ?r of Inl lines \<Rightarrow> True | Inr st' \<Rightarrow> hasErrors st') then 1 else 0)"
    using assms False by (cases ?r) (simp_all add: validateRules_def Let_def)
  then show ?thesis
    by (simp only: secondPass_status) simp
qed

lemma firstPass_apply:
  "firstPass w files allRules f =
     (if f \<in> set files then Some \<lparr>path = path_join (RULES_DIR w) f\<rparr> else allRules f)"
  by (induction files arbitrary: allRules) (auto simp: Let_def)

lemma firstPass_same_set:
  assumes "RULES_DIR w1 = RULES_DIR w2" and "set files1 = set files2"
  shows "firstPass w1 files1 allRules = firstPass w2 files2 allRules"
  using assms by (auto simp: firstPass_apply fun_eq_iff)

lemma secondPass_all_readable:
  assumes "\<forall>f\<in>set files. readFileSync w (path_join (RULES_DIR w) f) \<noteq> None"
  shows "secondPass w allRules files st =
           Inr \<lparr>hasErrors = (hasErrors st \<or> (\<exists>f\<in>set files. \<not> fileValid w allRules f)),
                validFiles = validFiles st @ filter (fileValid w allRules) files,
                out = out st @ concat (map (fileLines w allRules) files)\<rparr>"
  using assms
proof (induction files arbitrary: st)
  case Nil
  then show ?case by simp
next
  case (Cons f files)
  then obtain content where c: "readFileSync w (path_join (RULES_DIR w) f) = Some content"
    by auto
  from Cons.prems have rest: "\<forall>g\<in>set files. readFileSync w (path_join (RULES_DIR w) g) \<noteq> None"
    by simp
  show ?case
  proof (cases "valid (validateRuleFile f content allRules)")
    case True
    with c show ?thesis
      by (simp add: Cons.IH [OF rest] Let_def fileValid_def fileLines_def)
  next
    case False
    with c show ?thesis
      by (simp add: Cons.IH [OF rest] Let_def fileValid_def fileLines_def)
  qed
qed

lemma printed_all_readable:
  assumes "existsSync w" and "globSync w \<noteq> []"
    and "\<forall>f\<in>set (globSync w). readFileSync w (path_join (RULES_DIR w) f) \<noteq> None"
  shows "printed (validateRules w) =
           [Validating, FoundFiles (length (globSync w))]
           @ concat (map (fileLines w (firstPass w (globSync w) Map.empty)) (globSync w))
           @ [SummaryHeader,
              ValidCount (length (filter (fileValid w (firstPass w (globSync w) Map.empty)) (globSync w))),
              InvalidCount (int (length (globSync w))
                - int (length (filter (fileValid w (firstPass w (globSync w) Map.empty)) (globSync w))))]
           @ (if \<exists>f\<in>set (globSync w). \<not> fileValid w (firstPass w (globSync w) Map.empty) f
              then [] else [AllValid])"
  using assms(1,2)
  by (simp add: validateRules_def Let_def secondPass_all_readable [OF assms(3)])

lemma fileLines_cong:
  assumes "RULES_DIR w1 = RULES_DIR w2"
    and "readFileSync w1 (path_join (RULES_DIR w1) f) = readFileSync w2 (path_join (RULES_DIR w2) f)"
  shows "fileLines w1 allRules f = fileLines w2 allRules f"
    and "fileValid w1 allRules f = fileValid w2 allRules f"
  using assms by (simp_all add: fileLines_def fileValid_def)

lemma mset_concat_map_cong:
  assumes "mset xs = mset ys"
  shows "mset (concat (map g xs)) = mset (concat (map g ys))"
proof -
  have "mset (concat (map g zs)) = (\<Sum>z\<in>#mset zs. mset (g z))" for zs
    by (induction zs) simp_all
  with assms show ?thesis by simp
qed

lemma length_filter_mset_cong:
  assumes "mset xs = mset ys"
  shows "length (filter P xs) = length (filter P ys)"
proof -
  have "length (filter P zs) = size (filter_mset P (mset zs))" for zs
    by (metis mset_filter size_mset)
  with assms show ?thesis by simp
qed

section \<open>The claims\<close>

text \<open>
  C1 (amended).  For a run over an existing rules directory, the exit code of the process
  is non-zero exactly when at least one listed file produced at least one diagnostic or
  at least one listed file could not be read; when every listed file is read and
  produces no diagnostic, the exit code is zero.  (A read that throws ends the run in
  the handler at the end of the script, with exit code 1 and without a diagnostic.)
\<close>

theorem C1_exit_code:
  assumes "existsSync w"
  shows "exitCode (validateRules w) =
           (if \<exists>file\<in>set (globSync w).
                 case readFileSync w (path_join (RULES_DIR w) file) of
                   None \<Rightarrow> True
                 | Some content \<Rightarrow>
                     errors (validateRuleFile file content (firstPass w (globSync w) Map.empty)) \<noteq> []
            then 1 else 0)"
  using assms by (rule exitCode_validateRules)

theorem C1_exit_code_witness:
  "existsSync world_one
   \<and> readFileSync world_one (path_join (RULES_DIR world_one) (js ''a.mdc'')) = Some doc_no_header
   \<and> exitCode (validateRules world_one) = 1
   \<and> exitCode (validateRules world_ab) = 0"
proof -
  have e1: "existsSync world_one" and e2: "existsSync world_ab"
    by (simp_all add: world_one_def world_ab_def)
  have "checkStart doc_no_header = [NoFrontmatter]"
    by (simp add: doc_no_header_def checkStart_def startsWith_def js_def)
  then have bad: "errors (validateRuleFile (js ''a.mdc'') doc_no_header allRules) \<noteq> []" for allRules
    by (simp add: errors_validateRuleFile)
  have one: "exitCode (validateRules world_one) = 1"
    using C1_exit_code [OF e1] bad
    by (simp add: world_one_def path_join_def js_def)
  have rules: "firstPass world_ab (globSync world_ab) Map.empty (js ''a.mdc'') \<noteq> None"
    "firstPass world_ab (globSync world_ab) Map.empty (js ''b.mdc'') \<noteq> None"
    using dom_firstPass [of world_ab "globSync world_ab" Map.empty]
    by (auto simp: world_ab_def domIff)
  have good: "errors (validateRuleFile f doc_a (firstPass world_ab (globSync world_ab) Map.empty)) = []"
    "errors (validateRuleFile f doc_b (firstPass world_ab (globSync world_ab) Map.empty)) = []" for f
    using rules
    by (simp_all add: errors_validateRuleFile doc_a_def doc_b_def check_defs string_defs)
  have two: "exitCode (validateRules world_ab) = 0"
    using C1_exit_code [OF e2] good
    by (auto simp: world_ab_def read_ab_def path_join_def js_def doc_a_def doc_b_def)
  have "readFileSync world_one (path_join (RULES_DIR world_one) (js ''a.mdc'')) = Some doc_no_header"
    by (simp add: world_one_def path_join_def js_def)
  with e1 one two show ?thesis by blast
qed

theorem C1_counterexample:
  "existsSync world_unreadable
   \<and> globSync world_unreadable = [js ''a.mdc'']
   \<and> readFileSync world_unreadable (path_join (RULES_DIR world_unreadable) (js ''a.mdc'')) = None
   \<and> printed (validateRules world_unreadable) = [Validating, FoundFiles 1, ErrorDuringValidation]
   \<and> exitCode (validateRules world_unreadable) = 1"
  by (simp add: world_unreadable_def validateRules_def)

text \<open>
  C2.  The claim: a rule file that starts with the delimiter, has a closing delimiter line,
  has both required keys with non-empty values, has a heading in its body and only
  resolved references produces no diagnostic.  The script takes as body the second piece
  of \<open>content.split('\n---\n')\<close>, which ends at the next delimiter line.  For the rule
  file below, whose body has a horizontal rule before its first heading, every condition
  of the claim holds and the script still reports \<open>Missing header sections (no # found)\<close>.
\<close>

theorem C2_rule_in_body_rejected:
  "startsWith doc_rule_in_body (js ''---'')
   \<and> str_includes doc_rule_in_body DELIM
   \<and> indexOf doc_rule_in_body DELIM 3 = Some 30
   \<and> extractFrontmatter doc_rule_in_body = js ''Description: d\<newline>Globs: *.ts''
   \<and> substring_from doc_rule_in_body 35 = js ''Intro\<newline>---\<newline># Rules\<newline>''
   \<and> spec_line_leading_heading (substring_from doc_rule_in_body 35)
   \<and> str_match_all REF_RE 0 doc_rule_in_body = []
   \<and> mainContent doc_rule_in_body = js ''Intro''
   \<and> errors (validateRuleFile (js ''a.mdc'') doc_rule_in_body Map.empty) = [NoHeaderSections]
   \<and> \<not> valid (validateRuleFile (js ''a.mdc'') doc_rule_in_body Map.empty)"
proof -
  have fm: "extractFrontmatter doc_rule_in_body = js ''Description: d\<newline>Globs: *.ts''"
    by (simp add: doc_rule_in_body_def check_defs string_defs)
  have st: "checkStart doc_rule_in_body = []" "startsWith doc_rule_in_body (js ''---'')"
    by (simp_all add: doc_rule_in_body_def check_defs string_defs)
  have cl: "checkClosed doc_rule_in_body = []" "str_includes doc_rule_in_body DELIM"
    "indexOf doc_rule_in_body DELIM 3 = Some 30"
    by (simp_all add: doc_rule_in_body_def check_defs string_defs)
  have se: "checkSections (js ''Description: d\<newline>Globs: *.ts'') = []"
    by (simp add: check_defs string_defs)
  have gl: "checkGlobs (js ''Description: d\<newline>Globs: *.ts'') = []"
    by (simp add: check_defs string_defs)
  have rf: "str_match_all REF_RE 0 doc_rule_in_body = []"
    by (simp add: doc_rule_in_body_def check_defs string_defs)
  then have cr: "checkReferences doc_rule_in_body Map.empty = []"
    by (simp add: checkReferences_def)
  have mc: "mainContent doc_rule_in_body = js ''Intro''"
    by (simp add: doc_rule_in_body_def check_defs string_defs)
  then have cc: "checkContent doc_rule_in_body = [NoHeaderSections]"
    by (simp add: checkContent_def string_defs)
  have bd: "substring_from doc_rule_in_body 35 = js ''Intro\<newline>---\<newline># Rules\<newline>''"
    by (simp add: doc_rule_in_body_def string_defs)
  have hd: "spec_line_leading_heading (js ''Intro\<newline>---\<newline># Rules\<newline>'')"
    by (simp add: spec_line_leading_heading_def string_defs)
  have er: "errors (validateRuleFile (js ''a.mdc'') doc_rule_in_body Map.empty) = [NoHeaderSections]"
    by (simp add: errors_validateRuleFile fm st cl se gl cr cc)
  then have "\<not> valid (validateRuleFile (js ''a.mdc'') doc_rule_in_body Map.empty)"
    by (simp add: valid_validateRuleFile)
  with fm st cl rf mc bd hd er show ?thesis by simp
qed

text \<open>
  C3 (amended).  For a text that does not begin with the opening delimiter, the list of
  diagnostics starts with the one \<open>File does not start with frontmatter (---)\<close>, which
  occurs exactly once, and the later checks still run: the header counts as empty, so
  both required keys are reported missing and \<open>Globs section is empty\<close> is never
  reported, and the checks of the closing delimiter, of the references and of the body
  report what they find in the text.
\<close>

theorem C3_no_opening_delimiter:
  assumes "\<not> startsWith content (js ''---'')"
  shows "errors (validateRuleFile filename content allRules) =
           NoFrontmatter # checkClosed content
           @ [MissingSection (js ''Description''), MissingSection (js ''Globs'')]
           @ checkReferences content allRules @ checkContent content
         \<and> count_list (errors (validateRuleFile filename content allRules)) NoFrontmatter = 1
         \<and> GlobsEmpty \<notin> set (errors (validateRuleFile filename content allRules))"
proof -
  have fm: "extractFrontmatter content = []"
    using assms by (simp add: extractFrontmatter_def)
  have sec: "checkSections [] = [MissingSection (js ''Description''), MissingSection (js ''Globs'')]"
    by (simp add: checkSections_def REQUIRED_SECTIONS_def str_includes_def indexOf_def js_def)
  have gl: "checkGlobs [] = []"
    by (simp add: checkGlobs_def GLOBS_RE_def exec_at_def js_def)
  have e: "errors (validateRuleFile filename content allRules) =
           NoFrontmatter # checkClosed content
           @ [MissingSection (js ''Description''), MissingSection (js ''Globs'')]
           @ checkReferences content allRules @ checkContent content"
    using assms by (simp add: errors_validateRuleFile fm sec gl checkStart_def)
  have r: "count_list (checkReferences content allRules) NoFrontmatter = 0"
    by (auto simp: count_list_0_iff set_checkReferences)
  have "count_list (errors (validateRuleFile filename content allRules)) NoFrontmatter = 1"
    unfolding e using r by (simp add: checkClosed_def checkContent_def)
  moreover have "GlobsEmpty \<notin> set (errors (validateRuleFile filename content allRules))"
    unfolding e by (auto simp: checkClosed_def checkContent_def set_checkReferences)
  ultimately show ?thesis using e by simp
qed

theorem C3_no_opening_delimiter_witness:
  "\<not> startsWith doc_no_header (js ''---'')
   \<and> count_list (errors (validateRuleFile (js ''a.mdc'') doc_no_header Map.empty)) NoFrontmatter = 1
   \<and> MissingSection (js ''Globs'')
        \<in> set (errors (validateRuleFile (js ''a.mdc'') doc_no_header Map.empty))"
proof -
  have h: "\<not> startsWith doc_no_header (js ''---'')"
    by (simp add: doc_no_header_def startsWith_def js_def)
  note c3 = C3_no_opening_delimiter [OF h, of "js ''a.mdc''" Map.empty]
  from c3 have e: "errors (validateRuleFile (js ''a.mdc'') doc_no_header Map.empty) =
           NoFrontmatter # checkClosed doc_no_header
           @ [MissingSection (js ''Description''), MissingSection (js ''Globs'')]
           @ checkReferences doc_no_header Map.empty @ checkContent doc_no_header"
    and c: "count_list (errors (validateRuleFile (js ''a.mdc'') doc_no_header Map.empty))
              NoFrontmatter = 1"
    by blast+
  have "MissingSection (js ''Globs'')
          \<in> set (errors (validateRuleFile (js ''a.mdc'') doc_no_header Map.empty))"
    by (subst e) simp
  with h c show ?thesis by blast
qed

theorem C3_counterexample:
  "\<not> startsWith doc_no_header (js ''---'')
   \<and> errors (validateRuleFile (js ''a.mdc'') doc_no_header Map.empty) =
       [NoFrontmatter, NotClosed, MissingSection (js ''Description''),
        MissingSection (js ''Globs''), NoHeaderSections]"
  by (simp add: errors_validateRuleFile doc_no_header_def check_defs string_defs)

text \<open>
  C4.  The claim: a \<open>Globs\<close> key whose value is empty or blank is reported with
  \<open>Globs section is empty\<close>, and not as a missing key.  The key is indeed not reported
  missing, but the pattern \<open>/Globs:\s*(.+)(\n|$)/\<close> needs a non-empty value and lets
  \<open>\s*\<close> run over line breaks: with an empty value at the end of the header there is no
  match, and with a blank value followed by another line that line is taken as the
  value.  Both rule files below are reported valid.
\<close>

theorem C4_empty_globs_accepted:
  "extractFrontmatter doc_globs_empty = js ''Description: d\<newline>Globs:''
   \<and> str_match GLOBS_RE (js ''Description: d\<newline>Globs:'') = None
   \<and> errors (validateRuleFile (js ''a.mdc'') doc_globs_empty Map.empty) = []
   \<and> valid (validateRuleFile (js ''a.mdc'') doc_globs_empty Map.empty)
   \<and> extractFrontmatter doc_globs_blank = js ''Globs:   \<newline>Description: d''
   \<and> str_match GLOBS_RE (js ''Globs:   \<newline>Description: d'')
       = Some (js ''Globs:   \<newline>Description: d'', [js ''Description: d'', []])
   \<and> errors (validateRuleFile (js ''a.mdc'') doc_globs_blank Map.empty) = []
   \<and> valid (validateRuleFile (js ''a.mdc'') doc_globs_blank Map.empty)"
proof -
  have fm1: "extractFrontmatter doc_globs_empty = js ''Description: d\<newline>Globs:''"
    by (simp add: doc_globs_empty_def check_defs string_defs)
  have m1: "str_match GLOBS_RE (js ''Description: d\<newline>Globs:'') = None"
    by (simp add: check_defs string_defs)
  have e1: "errors (validateRuleFile (js ''a.mdc'') doc_globs_empty Map.empty) = []"
    by (simp add: errors_validateRuleFile doc_globs_empty_def check_defs string_defs)
  have fm2: "extractFrontmatter doc_globs_blank = js ''Globs:   \<newline>Description: d''"
    by (simp add: doc_globs_blank_def check_defs string_defs)
  have m2: "str_match GLOBS_RE (js ''Globs:   \<newline>Description: d'')
       = Some (js ''Globs:   \<newline>Description: d'', [js ''Description: d'', []])"
    by (simp add: check_defs string_defs)
  have e2: "errors (validateRuleFile (js ''a.mdc'') doc_globs_blank Map.empty) = []"
    by (simp add: errors_validateRuleFile doc_globs_blank_def check_defs string_defs)
  from fm1 m1 e1 fm2 m2 e2 show ?thesis
    by (simp add: valid_validateRuleFile)
qed

text \<open>
  C5.  Two rule files that reference each other, in a directory that lists exactly these
  two, in either order: the run prints no \<open>References non-existent rule file\<close> line.
  The names of all listed files are in \<open>allRules\<close> before the first file is validated.
\<close>

theorem C5_mutual_references:
  assumes "existsSync w"
    and "set (globSync w) = {a, b}"
    and "readFileSync w (path_join (RULES_DIR w) a) = Some contentA"
    and "readFileSync w (path_join (RULES_DIR w) b) = Some contentB"
    and "js ''@'' @ b \<in> set (str_match_all REF_RE 0 contentA)"
    and "js ''@'' @ a \<in> set (str_match_all REF_RE 0 contentB)"
    and "\<forall>ref \<in> set (str_match_all REF_RE 0 contentA) \<union> set (str_match_all REF_RE 0 contentB).
           ref = js ''@'' @ a \<or> ref = js ''@'' @ b"
  shows "FileError (message (NonExistentRef target)) \<notin> set (printed (validateRules w))"
proof -
  let ?allRules = "firstPass w (globSync w) Map.empty"
  let ?x = "message (NonExistentRef target)"
  let ?st = "\<lparr>hasErrors = False, validFiles = [],
               out = [Validating, FoundFiles (length (globSync w))]\<rparr>"
  have known: "?allRules a \<noteq> None" "?allRules b \<noteq> None"
    using dom_firstPass [of w "globSync w" Map.empty] assms(2) by (auto simp: domIff)
  have none: "message e \<noteq> ?x"
    if f: "f \<in> set (globSync w)"
      and c: "readFileSync w (path_join (RULES_DIR w) f) = Some content"
      and e: "e \<in> set (errors (validateRuleFile f content ?allRules))" for f content e
  proof
    assume "message e = ?x"
    then have "e = NonExistentRef target" by (rule message_NonExistentRef)
    with e obtain ref where ref: "ref \<in> set (str_match_all REF_RE 0 content)"
      "target = substring_from ref 1" "?allRules target = None"
      by (auto simp: NonExistentRef_iff)
    from f c assms(2,3,4) have "content = contentA \<or> content = contentB" by auto
    with ref(1) assms(7) have "ref = js ''@'' @ a \<or> ref = js ''@'' @ b" by auto
    with ref(2) have "target = a \<or> target = b"
      by (auto simp: substring_from_def js_def)
    with ref(3) known show False by auto
  qed
  have start: "FileError ?x \<notin> set (out ?st)" by simp
  note lines = secondPass_lines [of "globSync w" w ?allRules ?x ?st, OF none start]
  from assms(2) have ne: "globSync w \<noteq> []" by auto
  show ?thesis
  proof (cases "secondPass w ?allRules (globSync w) ?st")
    case (Inl lines')
    with lines assms(1) ne show ?thesis
      by (simp add: validateRules_def Let_def)
  next
    case (Inr st')
    with lines assms(1) ne show ?thesis
      by (simp add: validateRules_def Let_def)
  qed
qed

theorem C5_mutual_references_witness:
  "str_match_all REF_RE 0 doc_a = [js ''@b.mdc'']
   \<and> str_match_all REF_RE 0 doc_b = [js ''@a.mdc'']
   \<and> globSync world_ab = [js ''a.mdc'', js ''b.mdc'']
   \<and> globSync world_ba = [js ''b.mdc'', js ''a.mdc'']
   \<and> FileError (message (NonExistentRef (js ''b.mdc''))) \<notin> set (printed (validateRules world_ab))
   \<and> FileError (message (NonExistentRef (js ''b.mdc''))) \<notin> set (printed (validateRules world_ba))
   \<and> FileError (message (NonExistentRef (js ''a.mdc''))) \<notin> set (printed (validateRules world_ab))
   \<and> FileError (message (NonExistentRef (js ''a.mdc''))) \<notin> set (printed (validateRules world_ba))"
proof -
  have ra: "str_match_all REF_RE 0 doc_a = [js ''@b.mdc'']"
    by (simp add: doc_a_def check_defs string_defs)
  have rb: "str_match_all REF_RE 0 doc_b = [js ''@a.mdc'']"
    by (simp add: doc_b_def check_defs string_defs)
  have at: "js ''@'' @ js ''b.mdc'' = js ''@b.mdc''" "js ''@'' @ js ''a.mdc'' = js ''@a.mdc''"
    by (simp_all add: js_def)
  have ab: "existsSync world_ab" "set (globSync world_ab) = {js ''a.mdc'', js ''b.mdc''}"
    "readFileSync world_ab (path_join (RULES_DIR world_ab) (js ''a.mdc'')) = Some doc_a"
    "readFileSync world_ab (path_join (RULES_DIR world_ab) (js ''b.mdc'')) = Some doc_b"
    by (simp_all add: world_ab_def read_ab_def path_join_def js_def)
  have ba: "existsSync world_ba" "set (globSync world_ba) = {js ''a.mdc'', js ''b.mdc''}"
    "readFileSync world_ba (path_join (RULES_DIR world_ba) (js ''a.mdc'')) = Some doc_a"
    "readFileSync world_ba (path_join (RULES_DIR world_ba) (js ''b.mdc'')) = Some doc_b"
    by (auto simp: world_ba_def read_ab_def path_join_def js_def)
  have toks: "js ''@'' @ js ''b.mdc'' \<in> set (str_match_all REF_RE 0 doc_a)"
    "js ''@'' @ js ''a.mdc'' \<in> set (str_match_all REF_RE 0 doc_b)"
    "\<forall>ref \<in> set (str_match_all REF_RE 0 doc_a) \<union> set (str_match_all REF_RE 0 doc_b).
        ref = js ''@'' @ js ''a.mdc'' \<or> ref = js ''@'' @ js ''b.mdc''"
    by (simp_all add: ra rb at)
  note t1 = C5_mutual_references [OF ab toks]
  note t2 = C5_mutual_references [OF ba toks]
  have "globSync world_ab = [js ''a.mdc'', js ''b.mdc'']"
    "globSync world_ba = [js ''b.mdc'', js ''a.mdc'']"
    by (simp_all add: world_ab_def world_ba_def)
  with ra rb t1 [of "js ''b.mdc''"] t2 [of "js ''b.mdc''"] t1 [of "js ''a.mdc''"]
    t2 [of "js ''a.mdc''"]
  show ?thesis by blast
qed

text \<open>
  C6 (amended).  Reference tokens are taken from the whole text of a rule file, the header
  block included.  Every token of the reference shape (\<open>@\<close>, a non-empty run of word
  characters or \<open>-\<close>, then \<open>.mdc\<close>), at any position of the text, is reported with
  \<open>References non-existent rule file\<close> when its target is not a listed file; this
  holds also for a token inside the header block.
\<close>

theorem C6_references_in_whole_text:
  assumes "content = pre @ js ''@'' @ word @ js ''.mdc'' @ post"
    and "word \<noteq> []" and "\<forall>c\<in>set word. isWordOrDash c"
    and "allRules (word @ js ''.mdc'') = None"
  shows "NonExistentRef (word @ js ''.mdc'')
           \<in> set (errors (validateRuleFile filename content allRules))"
proof -
  from REF_RE_token_found [OF assms(2,3), of 0 pre post]
  have "js ''@'' @ word @ js ''.mdc'' \<in> set (str_match_all REF_RE 0 content)"
    by (simp add: assms(1))
  moreover have "substring_from (js ''@'' @ word @ js ''.mdc'') 1 = word @ js ''.mdc''"
    by (simp add: substring_from_def js_def)
  ultimately have "\<exists>ref\<in>set (str_match_all REF_RE 0 content).
      word @ js ''.mdc'' = substring_from ref 1 \<and> allRules (word @ js ''.mdc'') = None"
    using assms(4) by metis
  then show ?thesis
    by (simp only: NonExistentRef_iff)
qed

theorem C6_references_in_whole_text_witness:
  "doc_ref_in_header =
     js ''---\<newline>Description: see '' @ js ''@'' @ js ''ghost'' @ js ''.mdc''
       @ js ''\<newline>Globs: *.ts\<newline>---\<newline># T\<newline>''
   \<and> NonExistentRef (js ''ghost'' @ js ''.mdc'')
        \<in> set (errors (validateRuleFile (js ''a.mdc'') doc_ref_in_header Map.empty))
   \<and> doc_subdir_ref = js ''see @dir/file.mdc and '' @ js ''@'' @ js ''ghost'' @ js ''.mdc'' @ []
   \<and> NonExistentRef (js ''ghost'' @ js ''.mdc'')
        \<in> set (errors (validateRuleFile (js ''a.mdc'') doc_subdir_ref Map.empty))"
proof -
  have d: "doc_ref_in_header =
     js ''---\<newline>Description: see '' @ js ''@'' @ js ''ghost'' @ js ''.mdc''
       @ js ''\<newline>Globs: *.ts\<newline>---\<newline># T\<newline>''"
    by (simp add: doc_ref_in_header_def js_def)
  have d2: "doc_subdir_ref = js ''see @dir/file.mdc and '' @ js ''@'' @ js ''ghost'' @ js ''.mdc'' @ []"
    by (simp add: doc_subdir_ref_def js_def)
  have w: "js ''ghost'' \<noteq> []" "\<forall>c\<in>set (js ''ghost''). isWordOrDash c"
    by (simp_all add: js_def isWordOrDash_def isWordChar_def)
  have n: "Map.empty (js ''ghost'' @ js ''.mdc'') = (None :: rule_entry option)"
    by simp
  from C6_references_in_whole_text [OF d w n] C6_references_in_whole_text [OF d2 w n] d d2
  show ?thesis by blast
qed

theorem C6_counterexample:
  "extractFrontmatter doc_ref_in_header = js ''Description: see @ghost.mdc\<newline>Globs: *.ts''
   \<and> indexOf doc_ref_in_header DELIM 3 = Some 43
   \<and> substring_from doc_ref_in_header 48 = js ''# T\<newline>''
   \<and> str_match_all REF_RE 0 (js ''# T\<newline>'') = []
   \<and> errors (validateRuleFile (js ''a.mdc'') doc_ref_in_header Map.empty)
       = [NonExistentRef (js ''ghost.mdc'')]"
  by (simp add: errors_validateRuleFile doc_ref_in_header_def check_defs string_defs)

text \<open>
  C7 (amended).  For a rule file with a parsed body that has no further delimiter line,
  \<open>Missing header sections (no # found)\<close> is reported exactly when the body has no \<open>#\<close>
  at all; a \<open>#\<close> anywhere in the body, in the middle of a line too, is enough for
  the check to pass.
\<close>

theorem C7_body_without_hash:
  assumes "startsWith content (js ''---'')"
    and "indexOf content DELIM 3 = Some endOfFrontmatter"
    and "body = substring_from content (endOfFrontmatter + 5)"
    and "\<not> str_includes body DELIM"
  shows "NoHeaderSections \<in> set (errors (validateRuleFile filename content allRules))
           \<longleftrightarrow> \<not> str_includes body (js ''#'')"
proof -
  have "indexOf content DELIM 0 = Some endOfFrontmatter"
    using assms(1,2) by (simp add: indexOf_after_opening)
  then have "mainContent content = body"
    using assms(3,4) by (simp add: mainContent_single)
  then have "NoHeaderSections \<in> set (checkContent content) \<longleftrightarrow> \<not> str_includes body (js ''#'')"
    by (simp add: checkContent_def)
  moreover have "NoHeaderSections \<notin> set (checkStart content)"
    "NoHeaderSections \<notin> set (checkClosed content)"
    "NoHeaderSections \<notin> set (checkGlobs (extractFrontmatter content))"
    "NoHeaderSections \<notin> set (checkSections (extractFrontmatter content))"
    "NoHeaderSections \<notin> set (checkReferences content allRules)"
    using set_checkStart [of content] set_checkClosed [of content]
      set_checkGlobs [of "extractFrontmatter content"]
    by (auto simp: set_checkReferences set_checkSections)
  ultimately show ?thesis
    by (simp add: errors_validateRuleFile)
qed

theorem C7_body_without_hash_witness:
  "startsWith doc_hash_mid_line (js ''---'')
   \<and> indexOf doc_hash_mid_line DELIM 3 = Some 30
   \<and> substring_from doc_hash_mid_line (30 + 5) = js ''Use C# here\<newline>''
   \<and> str_includes (js ''Use C# here\<newline>'') (js ''#'')
   \<and> NoHeaderSections \<notin> set (errors (validateRuleFile (js ''a.mdc'') doc_hash_mid_line Map.empty))"
proof -
  have s: "startsWith doc_hash_mid_line (js ''---'')"
    and i: "indexOf doc_hash_mid_line DELIM 3 = Some 30"
    and b: "js ''Use C# here\<newline>'' = substring_from doc_hash_mid_line (30 + 5)"
    by (simp_all add: doc_hash_mid_line_def string_defs)
  have d: "\<not> str_includes (js ''Use C# here\<newline>'') DELIM"
    and h: "str_includes (js ''Use C# here\<newline>'') (js ''#'')"
    by (simp_all add: string_defs)
  from C7_body_without_hash [OF s i b d, of "js ''a.mdc''" Map.empty] h
  have "NoHeaderSections \<notin> set (errors (validateRuleFile (js ''a.mdc'') doc_hash_mid_line Map.empty))"
    by simp
  with s i b [symmetric] h show ?thesis by blast
qed

theorem C7_counterexample:
  "substring_from doc_hash_mid_line 35 = js ''Use C# here\<newline>''
   \<and> \<not> spec_line_leading_heading (js ''Use C# here\<newline>'')
   \<and> NoHeaderSections \<notin> set (errors (validateRuleFile (js ''a.mdc'') doc_hash_mid_line Map.empty))"
proof -
  have "errors (validateRuleFile (js ''a.mdc'') doc_hash_mid_line Map.empty) = []"
    by (simp add: errors_validateRuleFile doc_hash_mid_line_def check_defs string_defs)
  moreover have "substring_from doc_hash_mid_line 35 = js ''Use C# here\<newline>''"
    by (simp add: doc_hash_mid_line_def string_defs)
  moreover have "\<not> spec_line_leading_heading (js ''Use C# here\<newline>'')"
    by (simp add: spec_line_leading_heading_def string_defs)
  ultimately show ?thesis by simp
qed

text \<open>
  C8 (amended).  The report of a run is determined by the rules directory.  Two runs that
  find the same directory path, the same files with the same texts and the same order
  of discovery produce the same report, line by line, and the same exit code.  When only
  the order of discovery differs, the exit code, the set of known files and with it the
  diagnostics of every file are still the same, and (all files being readable) the
  report consists of the same lines; the lines of the files stand in the order of
  discovery, so the reports themselves differ.
\<close>

theorem C8_report_determined:
  assumes "RULES_DIR w1 = RULES_DIR w2"
    and "existsSync w1 = existsSync w2"
    and "mset (globSync w1) = mset (globSync w2)"
    and "\<forall>file\<in>set (globSync w1). readFileSync w1 (path_join (RULES_DIR w1) file)
                                    = readFileSync w2 (path_join (RULES_DIR w2) file)"
  shows "(globSync w1 = globSync w2 \<longrightarrow> validateRules w1 = validateRules w2)
       \<and> exitCode (validateRules w1) = exitCode (validateRules w2)
       \<and> firstPass w1 (globSync w1) Map.empty = firstPass w2 (globSync w2) Map.empty
       \<and> ((\<forall>file\<in>set (globSync w1). readFileSync w1 (path_join (RULES_DIR w1) file) \<noteq> None)
            \<longrightarrow> mset (printed (validateRules w1)) = mset (printed (validateRules w2)))"
proof -
  let ?m = "firstPass w1 (globSync w1) Map.empty"
  from assms(3) have sets: "set (globSync w1) = set (globSync w2)"
    by (rule mset_eq_setD)
  from assms(3) have len: "length (globSync w1) = length (globSync w2)"
    by (rule mset_eq_length)
  have fp: "?m = firstPass w2 (globSync w2) Map.empty"
    using assms(1) sets by (rule firstPass_same_set)
  have same: "validateRules w1 = validateRules w2" if "globSync w1 = globSync w2"
  proof -
    have "secondPass w1 allRules (globSync w1) st = secondPass w2 allRules (globSync w2) st"
      for allRules st
      using secondPass_cong [OF assms(1,4)] that by simp
    then show ?thesis
      using assms(1,2) that fp by (simp add: validateRules_def Let_def)
  qed
  have code: "exitCode (validateRules w1) = exitCode (validateRules w2)"
  proof (cases "existsSync w1")
    case True
    with assms(2) have "existsSync w2" by simp
    from exitCode_validateRules [OF True] exitCode_validateRules [OF this]
    show ?thesis
      unfolding fp [symmetric] sets [symmetric] using assms(4) by simp
  next
    case False
    with assms(2) show ?thesis by (simp add: validateRules_def)
  qed
  have lines: "mset (printed (validateRules w1)) = mset (printed (validateRules w2))"
    if r1: "\<forall>file\<in>set (globSync w1). readFileSync w1 (path_join (RULES_DIR w1) file) \<noteq> None"
  proof (cases "existsSync w1 \<and> globSync w1 \<noteq> []")
    case True
    then have e1: "existsSync w1" and n1: "globSync w1 \<noteq> []" by simp_all
    from e1 assms(2) have e2: "existsSync w2" by simp
    from n1 sets have n2: "globSync w2 \<noteq> []" by auto
    from r1 assms(4) sets
    have r2: "\<forall>file\<in>set (globSync w2). readFileSync w2 (path_join (RULES_DIR w2) file) \<noteq> None"
      by simp
    have L: "fileLines w1 ?m f = fileLines w2 ?m f"
      and V: "fileValid w1 ?m f = fileValid w2 ?m f" if "f \<in> set (globSync w1)" for f
      using fileLines_cong [OF assms(1), of f ?m] assms(4) that by simp_all
    have "concat (map (fileLines w1 ?m) (globSync w1)) = concat (map (fileLines w2 ?m) (globSync w1))"
      using L by (simp cong: map_cong)
    then have a: "mset (concat (map (fileLines w1 ?m) (globSync w1)))
                    = mset (concat (map (fileLines w2 ?m) (globSync w2)))"
      using mset_concat_map_cong [OF assms(3), of "fileLines w2 ?m"] by simp
    have "filter (fileValid w1 ?m) (globSync w1) = filter (fileValid w2 ?m) (globSync w1)"
      using V by (simp cong: filter_cong)
    then have b: "length (filter (fileValid w1 ?m) (globSync w1))
                    = length (filter (fileValid w2 ?m) (globSync w2))"
      using length_filter_mset_cong [OF assms(3), of "fileValid w2 ?m"] by simp
    have c: "(\<exists>f\<in>set (globSync w1). \<not> fileValid w1 ?m f)
               \<longleftrightarrow> (\<exists>f\<in>set (globSync w2). \<not> fileValid w2 ?m f)"
      using V sets by auto
    show ?thesis
      unfolding printed_all_readable [OF e1 n1 r1] printed_all_readable [OF e2 n2 r2] fp [symmetric]
      using a b c len by simp
  next
    case False
    then have "globSync w1 = globSync w2 \<or> \<not> existsSync w1"
      using assms(3) by auto
    then show ?thesis
    proof
      assume "globSync w1 = globSync w2"
      with same show ?thesis by simp
    next
      assume "\<not> existsSync w1"
      with assms(1,2) show ?thesis by (simp add: validateRules_def)
    qed
  qed
  from same code fp lines show ?thesis by blast
qed

theorem C8_report_determined_witness:
  "globSync world_pq = [js ''p.mdc'', js ''q.mdc'']
   \<and> globSync world_qp = [js ''q.mdc'', js ''p.mdc'']
   \<and> exitCode (validateRules world_pq) = exitCode (validateRules world_qp)
   \<and> mset (printed (validateRules world_pq)) = mset (printed (validateRules world_qp))"
proof -
  have d: "RULES_DIR world_pq = RULES_DIR world_qp"
    and e: "existsSync world_pq = existsSync world_qp"
    and g: "mset (globSync world_pq) = mset (globSync world_qp)"
    and l: "globSync world_pq = [js ''p.mdc'', js ''q.mdc'']"
      "globSync world_qp = [js ''q.mdc'', js ''p.mdc'']"
    by (simp_all add: world_pq_def world_qp_def)
  have r: "\<forall>file\<in>set (globSync world_pq).
             readFileSync world_pq (path_join (RULES_DIR world_pq) file)
               = readFileSync world_qp (path_join (RULES_DIR world_qp) file)"
    by (simp add: world_pq_def world_qp_def)
  have a: "\<forall>file\<in>set (globSync world_pq).
             readFileSync world_pq (path_join (RULES_DIR world_pq) file) \<noteq> None"
    by (simp add: world_pq_def read_pq_def path_join_def js_def)
  from C8_report_determined [OF d e g r] a l
  show ?thesis by blast
qed

theorem C8_counterexample:
  "RULES_DIR world_pq = RULES_DIR world_qp
   \<and> readFileSync world_pq = readFileSync world_qp
   \<and> set (globSync world_pq) = set (globSync world_qp)
   \<and> printed (validateRules world_pq) ! 2 = FileInvalid (js ''p.mdc'')
   \<and> printed (validateRules world_qp) ! 2 = FileValid (js ''q.mdc'')
   \<and> validateRules world_pq \<noteq> validateRules world_qp"
proof -
  have e: "existsSync world_pq" "existsSync world_qp"
    and n: "globSync world_pq \<noteq> []" "globSync world_qp \<noteq> []"
    by (simp_all add: world_pq_def world_qp_def)
  have r1: "\<forall>f\<in>set (globSync world_pq).
              readFileSync world_pq (path_join (RULES_DIR world_pq) f) \<noteq> None"
    and r2: "\<forall>f\<in>set (globSync world_qp).
              readFileSync world_qp (path_join (RULES_DIR world_qp) f) \<noteq> None"
    by (simp_all add: world_pq_def world_qp_def read_pq_def path_join_def js_def)
  have "checkStart doc_no_header = [NoFrontmatter]"
    by (simp add: doc_no_header_def checkStart_def startsWith_def js_def)
  then have bad: "\<not> valid (validateRuleFile f doc_no_header allRules)" for f allRules
    by (simp add: valid_validateRuleFile errors_validateRuleFile)
  have "str_match_all REF_RE 0 doc_globs_empty = []"
    by (simp add: doc_globs_empty_def check_defs string_defs)
  then have "checkReferences doc_globs_empty allRules = []" for allRules
    by (simp add: checkReferences_def)
  then have good: "valid (validateRuleFile f doc_globs_empty allRules)" for f allRules
    by (simp add: valid_validateRuleFile errors_validateRuleFile)
      (simp add: doc_globs_empty_def check_defs string_defs)
  have p: "fileLines world_pq allRules (js ''p.mdc'')
             = FileInvalid (js ''p.mdc'')
                 # map (\<lambda>error. FileError (message error))
                     (errors (validateRuleFile (js ''p.mdc'') doc_no_header allRules))" for allRules
    using bad by (simp add: fileLines_def world_pq_def read_pq_def path_join_def js_def)
  have q: "fileLines world_qp allRules (js ''q.mdc'') = [FileValid (js ''q.mdc'')]" for allRules
    using good by (simp add: fileLines_def world_qp_def read_pq_def path_join_def js_def)
  have l: "globSync world_pq = [js ''p.mdc'', js ''q.mdc'']"
    "globSync world_qp = [js ''q.mdc'', js ''p.mdc'']"
    by (simp_all add: world_pq_def world_qp_def)
  have v1: "printed (validateRules world_pq) ! 2 = FileInvalid (js ''p.mdc'')"
    unfolding printed_all_readable [OF e(1) n(1) r1] by (simp add: l p)
  have v2: "printed (validateRules world_qp) ! 2 = FileValid (js ''q.mdc'')"
    unfolding printed_all_readable [OF e(2) n(2) r2] by (simp add: l q)
  from v1 v2 have "validateRules world_pq \<noteq> validateRules world_qp" by auto
  moreover have "RULES_DIR world_pq = RULES_DIR world_qp"
    "readFileSync world_pq = readFileSync world_qp"
    "set (globSync world_pq) = set (globSync world_qp)"
    by (auto simp: world_pq_def world_qp_def)
  ultimately show ?thesis using v1 v2 by blast
qed

text \<open>
  C9.  A required key counts as present when its name followed by a colon occurs anywhere
  in the header block, the text between the opening delimiter and the closing delimiter
  line: then no \<open>Missing required frontmatter section\<close> is reported for it, whether or
  not a header line starts with the key.
\<close>

theorem C9_key_as_substring:
  assumes "startsWith content (js ''---'')"
    and "indexOf content DELIM 3 = Some endOfFrontmatter"
    and "section \<in> set REQUIRED_SECTIONS"
    and "str_includes (substring content 3 endOfFrontmatter) (section @ js '':'')"
  shows "MissingSection section \<notin> set (errors (validateRuleFile filename content allRules))"
proof -
  have fm: "extractFrontmatter content = trim (substring content 3 endOfFrontmatter)"
    using assms(1,2) by (simp add: extractFrontmatter_def)
  have key: "section @ js '':'' \<noteq> []" "\<not> isWhiteSpace (hd (section @ js '':''))"
    "\<not> isWhiteSpace (last (section @ js '':''))"
    using assms(3)
    by (auto simp: REQUIRED_SECTIONS_def js_def isWhiteSpace_def isLineTerminator_def)
  have "str_includes (extractFrontmatter content) (section @ js '':'')"
    using trim_keeps_sublist [OF _ key] assms(4) by (simp add: fm str_includes_sublist)
  then have "MissingSection section \<notin> set (checkSections (extractFrontmatter content))"
    by (simp add: set_checkSections)
  moreover have "MissingSection section \<notin> set (checkStart content)"
    "MissingSection section \<notin> set (checkClosed content)"
    "MissingSection section \<notin> set (checkGlobs (extractFrontmatter content))"
    "MissingSection section \<notin> set (checkContent content)"
    "MissingSection section \<notin> set (checkReferences content allRules)"
    using set_checkStart [of content] set_checkClosed [of content]
      set_checkGlobs [of "extractFrontmatter content"] set_checkContent [of content]
    by (auto simp: set_checkReferences)
  ultimately show ?thesis
    by (simp add: errors_validateRuleFile)
qed

theorem C9_key_as_substring_witness:
  "substring doc_keys_in_value 3 33 = js ''\<newline>Note: Description: x Globs: y''
   \<and> MissingSection (js ''Description'')
        \<notin> set (errors (validateRuleFile (js ''a.mdc'') doc_keys_in_value Map.empty))
   \<and> MissingSection (js ''Globs'')
        \<notin> set (errors (validateRuleFile (js ''a.mdc'') doc_keys_in_value Map.empty))"
proof -
  have s: "startsWith doc_keys_in_value (js ''---'')"
    and i: "indexOf doc_keys_in_value DELIM 3 = Some 33"
    and h: "substring doc_keys_in_value 3 33 = js ''\<newline>Note: Description: x Globs: y''"
    by (simp_all add: doc_keys_in_value_def string_defs)
  have r: "js ''Description'' \<in> set REQUIRED_SECTIONS" "js ''Globs'' \<in> set REQUIRED_SECTIONS"
    by (simp_all add: REQUIRED_SECTIONS_def)
  have k: "str_includes (substring doc_keys_in_value 3 33) (js ''Description'' @ js '':'')"
    "str_includes (substring doc_keys_in_value 3 33) (js ''Globs'' @ js '':'')"
    unfolding h by (simp_all add: string_defs)
  from C9_key_as_substring [OF s i r(1) k(1)] C9_key_as_substring [OF s i r(2) k(2)] h
  show ?thesis by blast
qed

text \<open>
  C10.  The reference pattern \<open>/@[\w-]+\.mdc/g\<close> matches no text with a path separator:
  no token it finds contains \<open>/\<close>, and no \<open>References non-existent rule file\<close>
  diagnostic names a file with \<open>/\<close> in its name, whatever the set of listed files.  A
  reference such as \<open>@dir/file.mdc\<close> is therefore passed over without a check.
\<close>

theorem C10_no_path_separator:
  "(\<forall>ref \<in> set (str_match_all REF_RE 0 content). set (js ''/'') \<inter> set ref = {})
   \<and> (\<forall>target. NonExistentRef target \<in> set (errors (validateRuleFile filename content allRules))
          \<longrightarrow> set (js ''/'') \<inter> set target = {})"
proof -
  have shape: "set (js ''/'') \<inter> set ref = {}" if "ref \<in> set (str_match_all REF_RE 0 content)" for ref
  proof -
    from str_match_all_REF_RE_shape [OF that] obtain w where
      w: "ref = js ''@'' @ w @ js ''.mdc''" "\<forall>x\<in>set w. isWordOrDash x" by blast
    have "\<not> isWordOrDash 47" by (simp add: isWordOrDash_def isWordChar_def)
    with w(2) have "47 \<notin> set w" by blast
    then show ?thesis by (simp add: w(1) js_def)
  qed
  have "set (js ''/'') \<inter> set target = {}"
    if "NonExistentRef target \<in> set (errors (validateRuleFile filename content allRules))" for target
  proof -
    from that have "NonExistentRef target \<in> set (checkReferences content allRules)"
      using set_checkStart [of content] set_checkClosed [of content]
        set_checkGlobs [of "extractFrontmatter content"] set_checkContent [of content]
      by (auto simp: errors_validateRuleFile set_checkSections)
    then obtain ref where "ref \<in> set (str_match_all REF_RE 0 content)"
      "target = substring_from ref 1"
      by (auto simp: set_checkReferences)
    with shape [of ref] show ?thesis
      by (auto simp: substring_from_def dest: in_set_dropD)
  qed
  with shape show ?thesis by blast
qed

theorem C10_no_path_separator_witness:
  "str_match_all REF_RE 0 doc_subdir_ref = [js ''@ghost.mdc'']
   \<and> NonExistentRef (js ''ghost.mdc'')
        \<in> set (errors (validateRuleFile (js ''a.mdc'') doc_subdir_ref Map.empty))
   \<and> NonExistentRef (js ''dir/file.mdc'')
        \<notin> set (errors (validateRuleFile (js ''a.mdc'') doc_subdir_ref Map.empty))"
proof -
  have m: "str_match_all REF_RE 0 doc_subdir_ref = [js ''@ghost.mdc'']"
    by (simp add: doc_subdir_ref_def check_defs string_defs)
  then have "checkReferences doc_subdir_ref Map.empty = [NonExistentRef (js ''ghost.mdc'')]"
    by (simp add: checkReferences_def substring_from_def js_def)
  then have g: "NonExistentRef (js ''ghost.mdc'')
        \<in> set (errors (validateRuleFile (js ''a.mdc'') doc_subdir_ref Map.empty))"
    by (simp add: errors_validateRuleFile)
  have "set (js ''/'') \<inter> set (js ''dir/file.mdc'') \<noteq> {}"
    by (simp add: js_def)
  with C10_no_path_separator [of doc_subdir_ref "js ''a.mdc''" Map.empty]
  have "NonExistentRef (js ''dir/file.mdc'')
        \<notin> set (errors (validateRuleFile (js ''a.mdc'') doc_subdir_ref Map.empty))"
    by blast
  with m g show ?thesis by blast
qed

end
